theory Spec2Isabelle
  imports Main "HOL-Library.Word" "HOL-Library.Sublist"
begin

unbundle bit_operations_syntax

section \<open>Data model of package authapi\<close>

text \<open>
  Go strings are byte strings and \<open>len\<close> counts bytes, so a Go \<open>string\<close> is a
  \<^typ>\<open>string\<close> here and \<open>len\<close> is \<^const>\<open>length\<close>.
\<close>

type_synonym byte = "8 word"

text \<open>The codes of \<open>encore.dev/beta/errs\<close> that the package uses, and \<open>errs.Error\<close>.\<close>

datatype ErrCode = InvalidArgument | AlreadyExists | Unauthenticated | Internal

record errs_Error =
  Code :: ErrCode
  Message :: string

text \<open>\<open>type User struct\<close>: one row of table \<open>users\<close>.\<close>

record User =
  ID :: int
  Email :: string
  Password :: string
  APIKey :: string

text \<open>
  \<open>SignupParams\<close> and \<open>LoginParams\<close> have the same two fields; the field names here
  are their JSON tags. The response structs hold one string each and are modelled by it.
\<close>

record SignupParams =
  email :: string
  password :: string

type_synonym LoginParams = SignupParams

record ProtectedParams =
  Data :: string

section \<open>The store\<close>

text \<open>
  The statements the package sends to the database, with their arguments. The store
  records every round trip in \<open>calls\<close>, so that a path which does not reach the
  database is told apart from one that does.
\<close>

datatype stmt =
    InsertUser string string string
  | SelectByEmail string
  | UpdateKey string string
  | SelectByKey string

text \<open>
  Table \<open>users\<close> of \<open>1_create_users.up.sql\<close>: the rows in insertion order, the
  \<open>BIGSERIAL\<close> sequence behind \<open>id\<close>, and the log of round trips.
\<close>

record store =
  rows :: "User list"
  next_id :: int
  calls :: "stmt list"

text \<open>The two \<open>UNIQUE\<close> constraints of the schema (and the primary key).\<close>

definition wf_store :: "store \<Rightarrow> bool" where
  "wf_store s \<longleftrightarrow>
     distinct (map Email (rows s)) \<and> distinct (map APIKey (rows s)) \<and> distinct (map ID (rows s))"

section \<open>What lies outside the package\<close>

text \<open>
  \<open>crypto/rand\<close>: \<open>rand.Read(b)\<close> either fails or fills every byte of \<open>b\<close>;
  \<open>RandFill f\<close> writes \<open>f i\<close> at index \<open>i\<close>.
\<close>

datatype rand_outcome = RandErr string | RandFill "nat \<Rightarrow> byte"

text \<open>
  The behaviour of the libraries and of the database driver during one call of an
  endpoint. \<open>bcrypt.GenerateFromPassword\<close> salts, so its result is part of the
  environment; \<open>bcrypt_CompareHashAndPassword h p\<close> is \<open>True\<close> when the Go function
  returns \<open>nil\<close>. \<open>db_fault\<close> is a driver error (a lost connection, say) that makes the
  round trip of this call fail.
\<close>

record env =
  rand_Read :: rand_outcome
  bcrypt_GenerateFromPassword :: "string \<Rightarrow> nat \<Rightarrow> string + string"
  bcrypt_CompareHashAndPassword :: "string \<Rightarrow> string \<Rightarrow> bool"
  db_fault :: "string option"

definition bcrypt_DefaultCost :: nat where
  "bcrypt_DefaultCost = 10"

section \<open>encoding/hex\<close>

definition hextable :: string where
  "hextable = ''0123456789abcdef''"

text \<open>\<open>hex.EncodeToString\<close>: two characters per byte, high nibble first.\<close>

fun hex_EncodeToString :: "byte list \<Rightarrow> string" where
  "hex_EncodeToString [] = []"
| "hex_EncodeToString (v # src) =
     hextable ! unat (drop_bit 4 v) # hextable ! unat (v AND 0x0f) # hex_EncodeToString src"

section \<open>Key generation\<close>

text \<open>The slice of length \<open>n\<close> after \<open>rand.Read\<close> has filled it from \<open>f\<close>.\<close>

definition filled :: "(nat \<Rightarrow> byte) \<Rightarrow> nat \<Rightarrow> byte list" where
  "filled f n = map f [0..<n]"

text \<open>\<open>generateAPIKey\<close>: 16 bytes from \<open>rand.Read\<close>, hex-encoded behind \<open>esk_\<close>.\<close>

definition generateAPIKey :: "env \<Rightarrow> string + string" where
  "generateAPIKey e =
     (case rand_Read e of
        RandErr err \<Rightarrow> Inl err
      | RandFill f \<Rightarrow> Inr (''esk_'' @ hex_EncodeToString (filled f 16)))"

section \<open>Statements against table users\<close>

definition unique_violation :: "string \<Rightarrow> string" where
  "unique_violation c = ''duplicate key value violates unique constraint '' @ c"

definition sql_ErrNoRows :: string where
  "sql_ErrNoRows = ''sql: no rows in result set''"

text \<open>
  \<open>INSERT INTO users (email, password, api_key) VALUES ($1, $2, $3)
  ON CONFLICT (email) DO NOTHING\<close>. The result is the driver's error or the number of
  rows affected. The sequence is advanced before the conflict is looked for, as
  PostgreSQL does; a taken \<open>email\<close> makes the statement a no-op, a taken \<open>api_key\<close>
  makes it fail.
\<close>

definition exec_insert :: "env \<Rightarrow> store \<Rightarrow> string \<Rightarrow> string \<Rightarrow> string \<Rightarrow> (string + nat) \<times> store" where
  "exec_insert e s em pw k =
     (let s1 = s\<lparr>calls := calls s @ [InsertUser em pw k]\<rparr> in
      case db_fault e of
        Some err \<Rightarrow> (Inl err, s1)
      | None \<Rightarrow>
          (let s2 = s1\<lparr>next_id := next_id s1 + 1\<rparr> in
           if list_ex (\<lambda>u. Email u = em) (rows s) then (Inr 0, s2)
           else if list_ex (\<lambda>u. ID u = next_id s) (rows s)
             then (Inl (unique_violation ''users_pkey''), s2)
           else if list_ex (\<lambda>u. APIKey u = k) (rows s)
             then (Inl (unique_violation ''users_api_key_key''), s2)
           else (Inr 1,
                 s2\<lparr>rows := rows s @ [\<lparr>ID = next_id s, Email = em, Password = pw, APIKey = k\<rparr>]\<rparr>)))"

text \<open>\<open>SELECT id, email, password, api_key FROM users WHERE email = $1\<close>, one row scanned.\<close>

definition query_by_email :: "env \<Rightarrow> store \<Rightarrow> string \<Rightarrow> (string + User) \<times> store" where
  "query_by_email e s em =
     (let s1 = s\<lparr>calls := calls s @ [SelectByEmail em]\<rparr> in
      case db_fault e of
        Some err \<Rightarrow> (Inl err, s1)
      | None \<Rightarrow>
          (case find (\<lambda>u. Email u = em) (rows s) of
             None \<Rightarrow> (Inl sql_ErrNoRows, s1)
           | Some u \<Rightarrow> (Inr u, s1)))"

text \<open>
  \<open>UPDATE users SET api_key = $1 WHERE email = $2\<close>. It fails when a changed row would
  share its \<open>api_key\<close> with another row, and succeeds with 0 when no row has the email.
\<close>

definition exec_update_key :: "env \<Rightarrow> store \<Rightarrow> string \<Rightarrow> string \<Rightarrow> (string + nat) \<times> store" where
  "exec_update_key e s k em =
     (let s1 = s\<lparr>calls := calls s @ [UpdateKey k em]\<rparr>;
          n = length (filter (\<lambda>u. Email u = em) (rows s)) in
      case db_fault e of
        Some err \<Rightarrow> (Inl err, s1)
      | None \<Rightarrow>
          if n = 0 then (Inr 0, s1)
          else if 1 < n \<or> list_ex (\<lambda>u. Email u \<noteq> em \<and> APIKey u = k) (rows s)
            then (Inl (unique_violation ''users_api_key_key''), s1)
          else (Inr n,
                s1\<lparr>rows := map (\<lambda>u. if Email u = em then u\<lparr>APIKey := k\<rparr> else u) (rows s)\<rparr>))"

text \<open>\<open>SELECT id, email, api_key FROM users WHERE api_key = $1\<close>, one row scanned.\<close>

definition query_by_key :: "env \<Rightarrow> store \<Rightarrow> string \<Rightarrow> (string + User) \<times> store" where
  "query_by_key e s k =
     (let s1 = s\<lparr>calls := calls s @ [SelectByKey k]\<rparr> in
      case db_fault e of
        Some err \<Rightarrow> (Inl err, s1)
      | None \<Rightarrow>
          (case find (\<lambda>u. APIKey u = k) (rows s) of
             None \<Rightarrow> (Inl sql_ErrNoRows, s1)
           | Some u \<Rightarrow> (Inr u, s1)))"

section \<open>The endpoints\<close>

text \<open>
  Every endpoint takes the environment of the call and the store, and returns its Go
  result (the error on the left) with the store after the call. The calls to
  \<open>rlog.Error\<close> write to the server log only and are left out.
\<close>

definition Signup :: "env \<Rightarrow> store \<Rightarrow> SignupParams \<Rightarrow> (errs_Error + string) \<times> store" where
  "Signup e s params =
     (if email params = [] \<or> CHR ''@'' \<notin> set (email params) then
        (Inl \<lparr>Code = InvalidArgument, Message = ''valid email is required''\<rparr>, s)
      else if password params = [] \<or> length (password params) < 8 then
        (Inl \<lparr>Code = InvalidArgument, Message = ''password must be at least 8 characters''\<rparr>, s)
      else
        case bcrypt_GenerateFromPassword e (password params) bcrypt_DefaultCost of
          Inl err \<Rightarrow> (Inl \<lparr>Code = Internal, Message = ''failed to hash password''\<rparr>, s)
        | Inr hashedPw \<Rightarrow>
            (case generateAPIKey e of
               Inl err \<Rightarrow> (Inl \<lparr>Code = Internal, Message = ''failed to generate API key''\<rparr>, s)
             | Inr apiKey \<Rightarrow>
                 (case exec_insert e s (email params) hashedPw apiKey of
                    (Inl err, s') \<Rightarrow>
                      (Inl \<lparr>Code = Internal, Message = ''failed to create user: '' @ err\<rparr>, s')
                  | (Inr rowsAffected, s') \<Rightarrow>
                      if rowsAffected = 0 then
                        (Inl \<lparr>Code = AlreadyExists, Message = ''email already registered''\<rparr>, s')
                      else (Inr apiKey, s'))))"

definition Login :: "env \<Rightarrow> store \<Rightarrow> LoginParams \<Rightarrow> (errs_Error + string) \<times> store" where
  "Login e s params =
     (if email params = [] \<or> password params = [] then
        (Inl \<lparr>Code = InvalidArgument, Message = ''email and password required''\<rparr>, s)
      else
        case query_by_email e s (email params) of
          (Inl err, s') \<Rightarrow>
            (Inl \<lparr>Code = Unauthenticated, Message = ''invalid credentials''\<rparr>, s')
        | (Inr user, s') \<Rightarrow>
            if \<not> bcrypt_CompareHashAndPassword e (Password user) (password params) then
              (Inl \<lparr>Code = Unauthenticated, Message = ''invalid credentials''\<rparr>, s')
            else (Inr (APIKey user), s'))"

text \<open>\<open>auth.UserID()\<close> is the identity attached to the request, if any.\<close>

definition RegenerateKey :: "env \<Rightarrow> store \<Rightarrow> string option \<Rightarrow> (errs_Error + string) \<times> store" where
  "RegenerateKey e s uid =
     (case uid of
        None \<Rightarrow> (Inl \<lparr>Code = Unauthenticated, Message = ''user not authenticated''\<rparr>, s)
      | Some userID \<Rightarrow>
          (case generateAPIKey e of
             Inl err \<Rightarrow> (Inl \<lparr>Code = Internal, Message = ''failed to generate new key''\<rparr>, s)
           | Inr newKey \<Rightarrow>
               (case exec_update_key e s newKey userID of
                  (Inl err, s') \<Rightarrow>
                    (Inl \<lparr>Code = Internal, Message = ''failed to update key''\<rparr>, s')
                | (Inr _, s') \<Rightarrow> (Inr newKey, s'))))"

text \<open>
  The message \<open>invalid API key format; must start with 'esk_'\<close>; its last character
  is the quote, written by its code.
\<close>

definition invalid_format_message :: string where
  "invalid_format_message = ''invalid API key format; must start with 'esk_'' @ [CHR 0x27]"

definition AuthHandler :: "env \<Rightarrow> store \<Rightarrow> string \<Rightarrow> (errs_Error + string) \<times> store" where
  "AuthHandler e s apiKey =
     (if \<not> prefix ''esk_'' apiKey \<or> length apiKey < 8 then
        (Inl \<lparr>Code = Unauthenticated, Message = invalid_format_message\<rparr>, s)
      else
        case query_by_key e s apiKey of
          (Inl err, s') \<Rightarrow> (Inl \<lparr>Code = Unauthenticated, Message = ''invalid API key''\<rparr>, s')
        | (Inr user, s') \<Rightarrow> (Inr (Email user), s'))"

definition Protected :: "store \<Rightarrow> string option \<Rightarrow> ProtectedParams \<Rightarrow> (errs_Error + string) \<times> store" where
  "Protected s uid params =
     (if Data params = [] then
        (Inl \<lparr>Code = InvalidArgument, Message = ''data is required''\<rparr>, s)
      else
        case uid of
          None \<Rightarrow> (Inl \<lparr>Code = Unauthenticated, Message = ''user not authenticated''\<rparr>, s)
        | Some userID \<Rightarrow> (Inr (''Protected data for '' @ userID @ '': '' @ Data params), s))"

section \<open>Fixtures for running the endpoints\<close>

text \<open>
  A stand-in for the two bcrypt functions, used only to run the endpoints on examples;
  it is not bcrypt and nothing below is proved about bcrypt itself.
\<close>

definition stub_GenerateFromPassword :: "string \<Rightarrow> nat \<Rightarrow> string + string" where
  "stub_GenerateFromPassword p c = Inr (''$2a$'' @ p)"

definition stub_CompareHashAndPassword :: "string \<Rightarrow> string \<Rightarrow> bool" where
  "stub_CompareHashAndPassword h p \<longleftrightarrow> h = ''$2a$'' @ p"

text \<open>Two random fillings: all zero, and the index of each byte.\<close>

definition fill_zero :: "nat \<Rightarrow> byte" where
  "fill_zero i = 0"

definition fill_count :: "nat \<Rightarrow> byte" where
  "fill_count i = of_nat i"

text \<open>An environment whose random source fills with \<open>f\<close> and whose database answers.\<close>

definition example_env :: "(nat \<Rightarrow> byte) \<Rightarrow> env" where
  "example_env f =
     \<lparr>rand_Read = RandFill f,
      bcrypt_GenerateFromPassword = stub_GenerateFromPassword,
      bcrypt_CompareHashAndPassword = stub_CompareHashAndPassword,
      db_fault = None\<rparr>"

text \<open>The table right after the migration.\<close>

definition empty_store :: store where
  "empty_store = \<lparr>rows = [], next_id = 1, calls = []\<rparr>"

text \<open>The same environment with a driver error on the round trip.\<close>

definition faulty_env :: "(nat \<Rightarrow> byte) \<Rightarrow> string \<Rightarrow> env" where
  "faulty_env f err = (example_env f)\<lparr>db_fault := Some err\<rparr>"

text \<open>
  The table after \<open>Signup\<close> of \<open>a@x.com\<close> with password \<open>longpass1\<close> under
  \<open>example_env fill_count\<close>.
\<close>

definition alice_key :: string where
  "alice_key = ''esk_000102030405060708090a0b0c0d0e0f''"

definition alice_store :: store where
  "alice_store =
     \<lparr>rows = [\<lparr>ID = 1, Email = ''a@x.com'', Password = ''$2a$longpass1'', APIKey = alice_key\<rparr>],
      next_id = 2,
      calls = []\<rparr>"

section \<open>Facts about the hex encoding\<close>

lemma hextable_length: "length hextable = 16"
  by (simp add: hextable_def)

lemma lo_nibble_lt: "unat ((v::byte) AND 0x0f) < 16"
proof -
  have "unat (v AND 15) \<le> unat (15 :: byte)"
    by (rule word_and_le1 [THEN word_le_nat_alt [THEN iffD1]])
  then show ?thesis by simp
qed

lemma hi_nibble_lt: "unat (drop_bit 4 (v::byte)) < 16"
proof -
  have "unat (drop_bit 4 v) = drop_bit 4 (unat v)" by (rule unat_drop_bit_eq)
  also have "\<dots> = unat v div 2 ^ 4" by (rule drop_bit_eq_div)
  finally have a: "unat (drop_bit 4 v) = unat v div 16" by simp
  have b: "unat v < 256" using unsigned_less [of v] by simp
  from b have "unat v div 16 < 16" by arith
  with a show ?thesis by (simp only:)
qed

lemma mask_4_byte: "(mask 4 :: byte) = 0x0f"
  by (simp add: mask_eq_exp_minus_1)

text \<open>A byte is determined by its two nibbles.\<close>

lemma nibbles_inj:
  fixes v w :: byte
  assumes "drop_bit 4 v = drop_bit 4 w" and "v AND 0x0f = w AND 0x0f"
  shows "v = w"
proof -
  have "take_bit 4 v = take_bit 4 w"
    using assms(2) by (simp only: take_bit_eq_mask mask_4_byte)
  then have "push_bit 4 (drop_bit 4 v) + take_bit 4 v = push_bit 4 (drop_bit 4 w) + take_bit 4 w"
    using assms(1) by (simp only:)
  then show ?thesis by (simp only: bits_ident)
qed

lemma hex_digit_inj:
  "i < 16 \<Longrightarrow> j < 16 \<Longrightarrow> hextable ! i = hextable ! j \<Longrightarrow> i = j"
  using nth_eq_iff_index_eq [of hextable i j] by (simp add: hextable_def)

text \<open>The encoding loses nothing: two byte strings with the same encoding are equal.\<close>

lemma hex_EncodeToString_inj:
  "hex_EncodeToString bs = hex_EncodeToString cs \<Longrightarrow> bs = cs"
proof (induction bs arbitrary: cs)
  case Nil
  then show ?case by (cases cs) simp_all
next
  case (Cons v bs)
  then obtain w cs' where cs: "cs = w # cs'" by (cases cs) auto
  from Cons.prems cs have hi: "hextable ! unat (drop_bit 4 v) = hextable ! unat (drop_bit 4 w)"
    and lo: "hextable ! unat (v AND 0x0f) = hextable ! unat (w AND 0x0f)"
    and tl: "hex_EncodeToString bs = hex_EncodeToString cs'" by simp_all
  have "unat (drop_bit 4 v) = unat (drop_bit 4 w)"
    by (rule hex_digit_inj [OF hi_nibble_lt hi_nibble_lt hi])
  then have h: "drop_bit 4 v = drop_bit 4 w"
    by (rule word_unat_eq_iff [THEN iffD2])
  have "unat (v AND 0x0f) = unat (w AND 0x0f)"
    by (rule hex_digit_inj [OF lo_nibble_lt lo_nibble_lt lo])
  then have l: "v AND 0x0f = w AND 0x0f"
    by (rule word_unat_eq_iff [THEN iffD2])
  have "v = w" by (rule nibbles_inj [OF h l])
  with Cons.IH [OF tl] cs show ?case by simp
qed

lemma hex_EncodeToString_length: "length (hex_EncodeToString bs) = 2 * length bs"
  by (induction bs) simp_all

lemma hex_EncodeToString_chars: "set (hex_EncodeToString bs) \<subseteq> set hextable"
proof (induction bs)
  case Nil
  show ?case by simp
next
  case (Cons v bs)
  have "hextable ! unat (drop_bit 4 v) \<in> set hextable"
    by (rule nth_mem) (simp add: hextable_length hi_nibble_lt)
  moreover have "hextable ! unat (v AND 0x0f) \<in> set hextable"
    by (rule nth_mem) (simp add: hextable_length lo_nibble_lt)
  ultimately show ?case using Cons.IH by simp
qed

section \<open>Facts about the table\<close>

text \<open>Under a \<open>UNIQUE\<close> column, the row a lookup finds is the row that has the value.\<close>

lemma find_distinct_key:
  "distinct (map f xs) \<Longrightarrow> u \<in> set xs \<Longrightarrow> find (\<lambda>v. f v = f u) xs = Some u"
proof (induction xs)
  case Nil
  then show ?case by simp
next
  case (Cons x xs)
  show ?case
  proof (cases "x = u")
    case True
    then show ?thesis by simp
  next
    case False
    with Cons.prems have mem: "u \<in> set xs" by simp
    then have "f u \<in> f ` set xs" by (rule imageI)
    with Cons.prems(1) have "f x \<noteq> f u" by auto
    with Cons.IH mem Cons.prems(1) show ?thesis by simp
  qed
qed

lemma find_no_key: "(\<forall>u\<in>set xs. f u \<noteq> k) \<Longrightarrow> find (\<lambda>v. f v = k) xs = None"
  by (simp add: find_None_iff)

section \<open>Key generation\<close>

lemma filled_length: "length (filled f n) = n"
  by (simp add: filled_def)

lemma generateAPIKey_Inr:
  "generateAPIKey e = Inr k \<Longrightarrow>
     \<exists>f. rand_Read e = RandFill f \<and> k = ''esk_'' @ hex_EncodeToString (filled f 16)"
  by (cases "rand_Read e") (simp_all add: generateAPIKey_def)

text \<open>The key in terms of the slice that \<open>rand.Read\<close> filled.\<close>

lemma generateAPIKey_payload:
  assumes "generateAPIKey e = Inr k"
  shows "prefix ''esk_'' k \<and> length k = 36 \<and> set (drop 4 k) \<subseteq> set hextable \<and>
    (\<exists>f. rand_Read e = RandFill f \<and> length (filled f 16) = 16 \<and>
          k = ''esk_'' @ hex_EncodeToString (filled f 16) \<and>
          (\<forall>bs. hex_EncodeToString bs = drop 4 k \<longrightarrow> bs = filled f 16))"
proof -
  from generateAPIKey_Inr [OF assms] obtain f where f: "rand_Read e = RandFill f"
    and k: "k = ''esk_'' @ hex_EncodeToString (filled f 16)"
    by blast
  have d: "drop 4 k = hex_EncodeToString (filled f 16)" by (simp add: k)
  have 1: "prefix ''esk_'' k" by (simp add: k)
  have 2: "length k = 36" by (simp add: k hex_EncodeToString_length filled_length)
  have 3: "set (drop 4 k) \<subseteq> set hextable"
    unfolding d by (rule hex_EncodeToString_chars)
  have 4: "\<forall>bs. hex_EncodeToString bs = drop 4 k \<longrightarrow> bs = filled f 16"
    unfolding d by (blast dest: hex_EncodeToString_inj)
  have 5: "length (filled f 16) = 16" by (rule filled_length)
  from f 5 k 4 have "\<exists>f. rand_Read e = RandFill f \<and> length (filled f 16) = 16 \<and>
          k = ''esk_'' @ hex_EncodeToString (filled f 16) \<and>
          (\<forall>bs. hex_EncodeToString bs = drop 4 k \<longrightarrow> bs = filled f 16)"
    by (intro exI [of _ f] conjI)
  with 1 2 3 show ?thesis by (intro conjI)
qed

text \<open>
  Claim C6. Every key that \<open>generateAPIKey\<close> returns starts with \<open>esk_\<close>; what follows
  the prefix is the hex encoding of the 16 bytes that \<open>rand.Read\<close> wrote, byte \<open>i\<close>
  of them being the byte \<open>f i\<close> of the random source: 32 characters of the hex
  alphabet, and no other byte string has that encoding.
\<close>

theorem generateAPIKey_format:
  assumes "generateAPIKey e = Inr k"
  shows "prefix ''esk_'' k \<and> length k = 36 \<and> set (drop 4 k) \<subseteq> set hextable \<and>
    (\<exists>f. rand_Read e = RandFill f \<and> length (map f [0..<16]) = 16 \<and>
          k = ''esk_'' @ hex_EncodeToString (map f [0..<16]) \<and>
          (\<forall>bs. hex_EncodeToString bs = drop 4 k \<longrightarrow> bs = map f [0..<16]))"
  using generateAPIKey_payload [OF assms] unfolding filled_def .

theorem generateAPIKey_format_witness:
  "generateAPIKey (example_env fill_count) = Inr ''esk_000102030405060708090a0b0c0d0e0f'' \<and>
   prefix ''esk_'' ''esk_000102030405060708090a0b0c0d0e0f'' \<and>
   length ''esk_000102030405060708090a0b0c0d0e0f'' = 36 \<and>
   ''esk_000102030405060708090a0b0c0d0e0f'' =
     ''esk_'' @ hex_EncodeToString (map fill_count [0..<16])"
proof -
  have h: "generateAPIKey (example_env fill_count) = Inr ''esk_000102030405060708090a0b0c0d0e0f''"
    by code_simp
  note r = generateAPIKey_format [OF h]
  from r obtain f where f: "rand_Read (example_env fill_count) = RandFill f"
    and k: "''esk_000102030405060708090a0b0c0d0e0f'' =
      ''esk_'' @ hex_EncodeToString (map f [0..<16])"
    by blast
  have "rand_Read (example_env fill_count) = RandFill fill_count"
    by (simp add: example_env_def)
  with f have "f = fill_count" by simp
  with k have b: "''esk_000102030405060708090a0b0c0d0e0f'' =
      ''esk_'' @ hex_EncodeToString (map fill_count [0..<16])"
    by (simp only:)
  from h r [THEN conjunct1] r [THEN conjunct2, THEN conjunct1] b show ?thesis
    by (intro conjI)
qed

section \<open>Protected\<close>

text \<open>
  Claim C10. \<open>Protected\<close> fails with \<open>InvalidArgument\<close> (the spec's InvalidInput) when
  \<open>data\<close> is empty; otherwise it fails with \<open>Unauthenticated\<close> when the request has no
  identity, and otherwise returns \<open>Protected data for <identity>: <data>\<close>. In each
  case the store, its log of round trips included, is the one it was given.
\<close>

theorem Protected_spec:
  "(Data params = [] \<longrightarrow>
      Protected s uid params = (Inl \<lparr>Code = InvalidArgument, Message = ''data is required''\<rparr>, s)) \<and>
   (Data params \<noteq> [] \<and> uid = None \<longrightarrow>
      Protected s uid params =
        (Inl \<lparr>Code = Unauthenticated, Message = ''user not authenticated''\<rparr>, s)) \<and>
   (\<forall>i. Data params \<noteq> [] \<and> uid = Some i \<longrightarrow>
      Protected s uid params = (Inr (''Protected data for '' @ i @ '': '' @ Data params), s))"
  by (simp add: Protected_def)

theorem Protected_spec_witness:
  "Data \<lparr>Data = ''hello''\<rparr> \<noteq> [] \<and>
   Protected empty_store (Some ''a@x.com'') \<lparr>Data = ''hello''\<rparr> =
     (Inr ''Protected data for a@x.com: hello'', empty_store) \<and>
   Protected empty_store None \<lparr>Data = ''hello''\<rparr> =
     (Inl \<lparr>Code = Unauthenticated, Message = ''user not authenticated''\<rparr>, empty_store) \<and>
   Protected empty_store None \<lparr>Data = []\<rparr> =
     (Inl \<lparr>Code = InvalidArgument, Message = ''data is required''\<rparr>, empty_store)"
  using Protected_spec [of "\<lparr>Data = ''hello''\<rparr>" empty_store "Some ''a@x.com''"]
    Protected_spec [of "\<lparr>Data = ''hello''\<rparr>" empty_store None]
    Protected_spec [of "\<lparr>Data = []\<rparr>" empty_store None]
  by simp

section \<open>Facts about the statements\<close>

lemma find_Some_mem: "find P xs = Some x \<Longrightarrow> x \<in> set xs \<and> P x"
  by (induction xs) (auto split: if_splits)

lemma distinct_key_unique:
  "distinct (map f xs) \<Longrightarrow> u \<in> set xs \<Longrightarrow> v \<in> set xs \<Longrightarrow> f u = f v \<Longrightarrow> u = v"
  by (auto simp: distinct_map dest: inj_onD)

lemma query_by_key_eq:
  "query_by_key e s k =
     (case db_fault e of
        Some err \<Rightarrow> Inl err
      | None \<Rightarrow> (case find (\<lambda>u. APIKey u = k) (rows s) of
                   None \<Rightarrow> Inl sql_ErrNoRows | Some u \<Rightarrow> Inr u),
      s\<lparr>calls := calls s @ [SelectByKey k]\<rparr>)"
  by (simp add: query_by_key_def Let_def split: option.splits)

lemma query_by_email_eq:
  "query_by_email e s em =
     (case db_fault e of
        Some err \<Rightarrow> Inl err
      | None \<Rightarrow> (case find (\<lambda>u. Email u = em) (rows s) of
                   None \<Rightarrow> Inl sql_ErrNoRows | Some u \<Rightarrow> Inr u),
      s\<lparr>calls := calls s @ [SelectByEmail em]\<rparr>)"
  by (simp add: query_by_email_def Let_def split: option.splits)

section \<open>AuthHandler\<close>

lemma AuthHandler_malformed:
  "\<not> prefix ''esk_'' tok \<or> length tok < 8 \<Longrightarrow>
     AuthHandler e s tok = (Inl \<lparr>Code = Unauthenticated, Message = invalid_format_message\<rparr>, s)"
  by (auto simp: AuthHandler_def)

lemma AuthHandler_wellformed:
  assumes "prefix ''esk_'' tok" and "8 \<le> length tok"
  shows "AuthHandler e s tok =
     (case db_fault e of
        Some err \<Rightarrow> Inl \<lparr>Code = Unauthenticated, Message = ''invalid API key''\<rparr>
      | None \<Rightarrow> (case find (\<lambda>u. APIKey u = tok) (rows s) of
                   None \<Rightarrow> Inl \<lparr>Code = Unauthenticated, Message = ''invalid API key''\<rparr>
                 | Some u \<Rightarrow> Inr (Email u)),
      s\<lparr>calls := calls s @ [SelectByKey tok]\<rparr>)"
proof -
  from assms(2) have "\<not> length tok < 8" by simp
  with assms(1) show ?thesis
    by (simp add: AuthHandler_def query_by_key_eq split: option.splits)
qed

text \<open>
  Claim C8. A token without the prefix \<open>esk_\<close> or shorter than 8 bytes is refused
  with \<open>Unauthenticated\<close> and the store is returned as given, with no round trip
  logged. Any other token costs exactly one round trip, the lookup by \<open>api_key\<close> of
  that token, and changes nothing else; the call fails with \<open>Unauthenticated\<close> when
  no row has the token (or the lookup itself fails), and returns the email of the row
  that has it when one does.
\<close>

theorem AuthHandler_spec:
  "(\<not> prefix ''esk_'' tok \<or> length tok < 8 \<longrightarrow>
      AuthHandler e s tok =
        (Inl \<lparr>Code = Unauthenticated, Message = invalid_format_message\<rparr>, s)) \<and>
   (prefix ''esk_'' tok \<and> 8 \<le> length tok \<longrightarrow>
      snd (AuthHandler e s tok) = s\<lparr>calls := calls s @ [SelectByKey tok]\<rparr> \<and>
      (db_fault e \<noteq> None \<or> (\<forall>u\<in>set (rows s). APIKey u \<noteq> tok) \<longrightarrow>
         fst (AuthHandler e s tok) =
           Inl \<lparr>Code = Unauthenticated, Message = ''invalid API key''\<rparr>) \<and>
      (\<forall>u\<in>set (rows s).
         APIKey u = tok \<and> distinct (map APIKey (rows s)) \<and> db_fault e = None \<longrightarrow>
         fst (AuthHandler e s tok) = Inr (Email u)))"
proof (intro conjI impI ballI)
  assume "\<not> prefix ''esk_'' tok \<or> length tok < 8"
  then show "AuthHandler e s tok =
      (Inl \<lparr>Code = Unauthenticated, Message = invalid_format_message\<rparr>, s)"
    by (rule AuthHandler_malformed)
next
  assume "prefix ''esk_'' tok \<and> 8 \<le> length tok"
  then show "snd (AuthHandler e s tok) = s\<lparr>calls := calls s @ [SelectByKey tok]\<rparr>"
    by (simp add: AuthHandler_wellformed)
next
  assume wf: "prefix ''esk_'' tok \<and> 8 \<le> length tok"
    and "db_fault e \<noteq> None \<or> (\<forall>u\<in>set (rows s). APIKey u \<noteq> tok)"
  then show "fst (AuthHandler e s tok) =
      Inl \<lparr>Code = Unauthenticated, Message = ''invalid API key''\<rparr>"
  proof (elim disjE)
    assume "db_fault e \<noteq> None"
    with wf show ?thesis by (auto simp: AuthHandler_wellformed)
  next
    assume "\<forall>u\<in>set (rows s). APIKey u \<noteq> tok"
    then have "find (\<lambda>u. APIKey u = tok) (rows s) = None" by (rule find_no_key)
    with wf show ?thesis by (simp add: AuthHandler_wellformed split: option.splits)
  qed
next
  fix u
  assume wf: "prefix ''esk_'' tok \<and> 8 \<le> length tok"
    and u: "u \<in> set (rows s)"
    and h: "APIKey u = tok \<and> distinct (map APIKey (rows s)) \<and> db_fault e = None"
  from h u have "find (\<lambda>v. APIKey v = APIKey u) (rows s) = Some u"
    by (intro find_distinct_key) simp_all
  with h have "find (\<lambda>v. APIKey v = tok) (rows s) = Some u" by simp
  with wf h show "fst (AuthHandler e s tok) = Inr (Email u)"
    by (simp add: AuthHandler_wellformed)
qed

theorem AuthHandler_spec_witness:
  "prefix ''esk_'' alice_key \<and> 8 \<le> length alice_key \<and>
   fst (AuthHandler (example_env fill_zero) alice_store alice_key) = Inr ''a@x.com'' \<and>
   snd (AuthHandler (example_env fill_zero) alice_store alice_key) =
     alice_store\<lparr>calls := calls alice_store @ [SelectByKey alice_key]\<rparr> \<and>
   fst (AuthHandler (example_env fill_zero) alice_store ''esk_ffff'') =
     Inl \<lparr>Code = Unauthenticated, Message = ''invalid API key''\<rparr> \<and>
   AuthHandler (example_env fill_zero) alice_store ''esk_'' =
     (Inl \<lparr>Code = Unauthenticated, Message = invalid_format_message\<rparr>, alice_store)"
  using AuthHandler_spec [where tok = alice_key and e = "example_env fill_zero" and s = alice_store]
    AuthHandler_spec [where tok = "''esk_ffff''" and e = "example_env fill_zero" and s = alice_store]
    AuthHandler_spec [where tok = "''esk_''" and e = "example_env fill_zero" and s = alice_store]
  by (simp add: alice_key_def alice_store_def example_env_def)

section \<open>Login\<close>

lemma Login_eq:
  assumes "email p \<noteq> []" and "password p \<noteq> []"
  shows "Login e s p =
     (case db_fault e of
        Some err \<Rightarrow> Inl \<lparr>Code = Unauthenticated, Message = ''invalid credentials''\<rparr>
      | None \<Rightarrow> (case find (\<lambda>u. Email u = email p) (rows s) of
                   None \<Rightarrow> Inl \<lparr>Code = Unauthenticated, Message = ''invalid credentials''\<rparr>
                 | Some u \<Rightarrow>
                     if bcrypt_CompareHashAndPassword e (Password u) (password p)
                     then Inr (APIKey u)
                     else Inl \<lparr>Code = Unauthenticated, Message = ''invalid credentials''\<rparr>),
      s\<lparr>calls := calls s @ [SelectByEmail (email p)]\<rparr>)"
  using assms by (simp add: Login_def query_by_email_eq split: option.splits)

lemma Login_invalid:
  "email p = [] \<or> password p = [] \<Longrightarrow>
     Login e s p = (Inl \<lparr>Code = InvalidArgument, Message = ''email and password required''\<rparr>, s)"
  by (auto simp: Login_def)

text \<open>
  Claim C3. With a non-empty email and a non-empty password on both sides, \<open>Login\<close>
  for an email that no row has and \<open>Login\<close> for a stored email whose hash
  \<open>bcrypt.CompareHashAndPassword\<close> rejects return the same error: code
  \<open>Unauthenticated\<close>, message \<open>invalid credentials\<close>.
\<close>

theorem Login_indistinguishable:
  assumes "email p1 \<noteq> []" and "password p1 \<noteq> []"
    and "email p2 \<noteq> []" and "password p2 \<noteq> []"
    and absent: "\<forall>v\<in>set (rows s1). Email v \<noteq> email p1"
    and stored: "u \<in> set (rows s2)" "Email u = email p2" "distinct (map Email (rows s2))"
    and wrong: "\<not> bcrypt_CompareHashAndPassword e2 (Password u) (password p2)"
  shows "fst (Login e1 s1 p1) = Inl \<lparr>Code = Unauthenticated, Message = ''invalid credentials''\<rparr> \<and>
         fst (Login e2 s2 p2) = fst (Login e1 s1 p1)"
proof -
  from absent have "find (\<lambda>v. Email v = email p1) (rows s1) = None" by (rule find_no_key)
  then have 1: "fst (Login e1 s1 p1) =
      Inl \<lparr>Code = Unauthenticated, Message = ''invalid credentials''\<rparr>"
    using assms(1,2) by (simp add: Login_eq split: option.splits)
  from stored have "find (\<lambda>v. Email v = Email u) (rows s2) = Some u"
    by (intro find_distinct_key)
  with stored(2) have "find (\<lambda>v. Email v = email p2) (rows s2) = Some u" by simp
  then have 2: "fst (Login e2 s2 p2) =
      Inl \<lparr>Code = Unauthenticated, Message = ''invalid credentials''\<rparr>"
    using assms(3,4) wrong by (simp add: Login_eq split: option.splits)
  from 1 2 show ?thesis by simp
qed

theorem Login_indistinguishable_witness:
  "fst (Login (example_env fill_zero) alice_store \<lparr>email = ''b@x.com'', password = ''longpass1''\<rparr>) =
     Inl \<lparr>Code = Unauthenticated, Message = ''invalid credentials''\<rparr> \<and>
   fst (Login (example_env fill_zero) alice_store \<lparr>email = ''a@x.com'', password = ''wrongpass''\<rparr>) =
     fst (Login (example_env fill_zero) alice_store \<lparr>email = ''b@x.com'', password = ''longpass1''\<rparr>)"
  using Login_indistinguishable [where
      ?p1.0 = "\<lparr>email = ''b@x.com'', password = ''longpass1''\<rparr>" and
      ?p2.0 = "\<lparr>email = ''a@x.com'', password = ''wrongpass''\<rparr>" and
      ?s1.0 = alice_store and ?s2.0 = alice_store and
      ?e1.0 = "example_env fill_zero" and ?e2.0 = "example_env fill_zero" and
      u = "\<lparr>ID = 1, Email = ''a@x.com'', Password = ''$2a$longpass1'', APIKey = alice_key\<rparr>"]
  by (simp add: alice_store_def example_env_def stub_CompareHashAndPassword_def)

text \<open>
  Claim C7. \<open>Login\<close> never changes a row or the sequence, and its result does not
  depend on the random source; when it succeeds, the key it returns is the \<open>api_key\<close>
  of a stored row with that email, and of every such row when emails are unique.
\<close>

theorem Login_frame:
  "rows (snd (Login e s p)) = rows s \<and> next_id (snd (Login e s p)) = next_id s \<and>
   Login (e\<lparr>rand_Read := r\<rparr>) s p = Login e s p \<and>
   (\<forall>k. fst (Login e s p) = Inr k \<longrightarrow>
      (\<exists>u\<in>set (rows s). Email u = email p \<and> APIKey u = k) \<and>
      (distinct (map Email (rows s)) \<longrightarrow>
         (\<forall>u\<in>set (rows s). Email u = email p \<longrightarrow> APIKey u = k)))"
proof (intro conjI allI impI)
  show "rows (snd (Login e s p)) = rows s"
    by (cases "email p = [] \<or> password p = []") (auto simp: Login_invalid Login_eq)
  show "next_id (snd (Login e s p)) = next_id s"
    by (cases "email p = [] \<or> password p = []") (auto simp: Login_invalid Login_eq)
  show "Login (e\<lparr>rand_Read := r\<rparr>) s p = Login e s p"
    by (cases "email p = [] \<or> password p = []")
      (auto simp: Login_invalid Login_eq split: option.splits)
next
  fix k
  assume ok: "fst (Login e s p) = Inr k"
  then have ne: "email p \<noteq> []" "password p \<noteq> []"
    by (auto simp: Login_invalid)
  from ok obtain u0 where f: "find (\<lambda>u. Email u = email p) (rows s) = Some u0"
    and k: "k = APIKey u0"
    by (auto simp: Login_eq [OF ne] split: option.splits if_splits)
  from find_Some_mem [OF f] have m: "u0 \<in> set (rows s)" and em: "Email u0 = email p"
    by simp_all
  from m em k show "\<exists>u\<in>set (rows s). Email u = email p \<and> APIKey u = k" by blast
  show "\<forall>u\<in>set (rows s). Email u = email p \<longrightarrow> APIKey u = k"
    if d: "distinct (map Email (rows s))"
  proof (intro ballI impI)
    fix u
    assume "u \<in> set (rows s)" and "Email u = email p"
    with d m em have "u = u0" by (intro distinct_key_unique [of Email "rows s"]) simp_all
    with k show "APIKey u = k" by simp
  qed
qed

theorem Login_frame_witness:
  "fst (Login (example_env fill_zero) alice_store \<lparr>email = ''a@x.com'', password = ''longpass1''\<rparr>) =
     Inr alice_key \<and>
   rows (snd (Login (example_env fill_zero) alice_store
     \<lparr>email = ''a@x.com'', password = ''longpass1''\<rparr>)) = rows alice_store \<and>
   (\<exists>u\<in>set (rows alice_store). Email u = ''a@x.com'' \<and> APIKey u = alice_key)"
proof -
  have h: "fst (Login (example_env fill_zero) alice_store
      \<lparr>email = ''a@x.com'', password = ''longpass1''\<rparr>) = Inr alice_key"
    by (simp add: Login_eq alice_store_def example_env_def stub_CompareHashAndPassword_def)
  note r = Login_frame [where e = "example_env fill_zero" and s = alice_store and
      p = "\<lparr>email = ''a@x.com'', password = ''longpass1''\<rparr>"]
  from r have 1: "rows (snd (Login (example_env fill_zero) alice_store
     \<lparr>email = ''a@x.com'', password = ''longpass1''\<rparr>)) = rows alice_store"
    by (rule conjunct1)
  from r h have 2: "\<exists>u\<in>set (rows alice_store). Email u = ''a@x.com'' \<and> APIKey u = alice_key"
    by simp
  from h 1 2 show ?thesis by (intro conjI)
qed

section \<open>Signup\<close>

lemma exec_insert_rows:
  "rows (snd (exec_insert e s em pw k)) =
     (if fst (exec_insert e s em pw k) = Inr 1
      then rows s @ [\<lparr>ID = next_id s, Email = em, Password = pw, APIKey = k\<rparr>]
      else rows s)"
  by (simp add: exec_insert_def Let_def split: option.splits)

lemma exec_insert_conflict:
  "\<exists>u\<in>set (rows s). Email u = em \<Longrightarrow> db_fault e = None \<Longrightarrow>
     fst (exec_insert e s em pw k) = Inr 0"
  by (simp add: exec_insert_def Let_def list_ex_iff)

lemma exec_insert_not_inserted:
  "\<exists>u\<in>set (rows s). Email u = em \<Longrightarrow> fst (exec_insert e s em pw k) \<noteq> Inr 1"
  by (simp add: exec_insert_def Let_def list_ex_iff split: option.splits)

lemma exec_insert_fault:
  "db_fault e = Some err \<Longrightarrow>
     exec_insert e s em pw k = (Inl err, s\<lparr>calls := calls s @ [InsertUser em pw k]\<rparr>)"
  by (simp add: exec_insert_def Let_def)

text \<open>The shape of every result of \<open>Signup\<close> once validation has passed.\<close>

lemma Signup_valid:
  assumes "CHR ''@'' \<in> set (email p)" and "8 \<le> length (password p)"
  shows "Signup e s p =
     (case bcrypt_GenerateFromPassword e (password p) bcrypt_DefaultCost of
        Inl err \<Rightarrow> (Inl \<lparr>Code = Internal, Message = ''failed to hash password''\<rparr>, s)
      | Inr hashedPw \<Rightarrow>
          (case generateAPIKey e of
             Inl err \<Rightarrow> (Inl \<lparr>Code = Internal, Message = ''failed to generate API key''\<rparr>, s)
           | Inr apiKey \<Rightarrow>
               (case fst (exec_insert e s (email p) hashedPw apiKey) of
                  Inl err \<Rightarrow> Inl \<lparr>Code = Internal, Message = ''failed to create user: '' @ err\<rparr>
                | Inr n \<Rightarrow>
                    if n = 0
                    then Inl \<lparr>Code = AlreadyExists, Message = ''email already registered''\<rparr>
                    else Inr apiKey,
                snd (exec_insert e s (email p) hashedPw apiKey))))"
proof -
  from assms(1) have "email p \<noteq> []" by auto
  moreover from assms(2) have "password p \<noteq> []" and "\<not> length (password p) < 8" by auto
  ultimately show ?thesis
    using assms(1) by (simp add: Signup_def split: sum.splits prod.splits)
qed

lemma Signup_invalid:
  "CHR ''@'' \<notin> set (email p) \<or> length (password p) < 8 \<Longrightarrow>
     snd (Signup e s p) = s \<and>
     (\<exists>m. fst (Signup e s p) = Inl \<lparr>Code = InvalidArgument, Message = m\<rparr>)"
  by (auto simp: Signup_def)

text \<open>A call of \<open>Signup\<close> that fails leaves the rows as they were.\<close>

lemma Signup_failure_rows:
  assumes "fst (Signup e s p) = Inl err"
  shows "rows (snd (Signup e s p)) = rows s"
proof (cases "CHR ''@'' \<in> set (email p) \<and> 8 \<le> length (password p)")
  case False
  then have "CHR ''@'' \<notin> set (email p) \<or> length (password p) < 8" by auto
  from Signup_invalid [OF this, where e = e and s = s] show ?thesis by simp
next
  case True
  then have v: "CHR ''@'' \<in> set (email p)" "8 \<le> length (password p)" by simp_all
  from assms show ?thesis
    by (auto simp: Signup_valid [OF v] exec_insert_rows split: sum.splits if_splits)
qed

text \<open>The messages of the \<open>Internal\<close> failures of \<open>Signup\<close>.\<close>

lemma Signup_internal_message:
  assumes "fst (Signup e s p) = Inl \<lparr>Code = Internal, Message = m\<rparr>"
  shows "m = ''failed to hash password'' \<or> m = ''failed to generate API key'' \<or>
         (\<exists>h k d. fst (exec_insert e s (email p) h k) = Inl d \<and> m = ''failed to create user: '' @ d)"
proof (cases "CHR ''@'' \<in> set (email p) \<and> 8 \<le> length (password p)")
  case False
  then have "CHR ''@'' \<notin> set (email p) \<or> length (password p) < 8" by auto
  from Signup_invalid [OF this, where e = e and s = s] assms show ?thesis by auto
next
  case True
  then have v: "CHR ''@'' \<in> set (email p)" "8 \<le> length (password p)" by simp_all
  show ?thesis
  proof (cases "bcrypt_GenerateFromPassword e (password p) bcrypt_DefaultCost")
    case (Inl a)
    with assms have "m = ''failed to hash password''" by (simp add: Signup_valid [OF v])
    then show ?thesis by (rule disjI1)
  next
    case h: (Inr hashedPw)
    show ?thesis
    proof (cases "generateAPIKey e")
      case (Inl a)
      with assms h have "m = ''failed to generate API key''"
        by (simp add: Signup_valid [OF v])
      then show ?thesis by (intro disjI2 disjI1)
    next
      case k: (Inr apiKey)
      show ?thesis
      proof (cases "fst (exec_insert e s (email p) hashedPw apiKey)")
        case (Inl d)
        with assms h k have "m = ''failed to create user: '' @ d"
          by (simp add: Signup_valid [OF v])
        with Inl show ?thesis by (intro disjI2 exI conjI)
      next
        case (Inr n)
        with assms h k have False by (simp add: Signup_valid [OF v] split: if_splits)
        then show ?thesis ..
      qed
    qed
  qed
qed

text \<open>
  Claim C5 as stated fails: \<open>a@x.com\<close> has a row, and \<open>Signup\<close> for that email
  with a password of five bytes is refused by validation with \<open>InvalidArgument\<close>
  before the store is asked, not with \<open>AlreadyExists\<close>.
\<close>

theorem Signup_existing_email_counterexample:
  "map Email (rows alice_store) = [''a@x.com''] \<and>
   fst (Signup (example_env fill_zero) alice_store \<lparr>email = ''a@x.com'', password = ''short''\<rparr>) =
     Inl \<lparr>Code = InvalidArgument, Message = ''password must be at least 8 characters''\<rparr>"
  by (simp add: Signup_def alice_store_def)

text \<open>
  Claim C5, amended. A \<open>Signup\<close> whose email already has a row always fails, adds
  no row and leaves every row as it was. The failure is \<open>AlreadyExists\<close> when the
  input passes validation (an \<open>@\<close> in the email, a password of at least 8 bytes),
  hashing and key generation succeed and the driver does not fail.
\<close>

theorem Signup_existing_email:
  assumes "\<exists>u\<in>set (rows s). Email u = email p"
  shows "(\<exists>err. fst (Signup e s p) = Inl err) \<and> rows (snd (Signup e s p)) = rows s \<and>
     (CHR ''@'' \<in> set (email p) \<and> 8 \<le> length (password p) \<and>
      (\<exists>h. bcrypt_GenerateFromPassword e (password p) bcrypt_DefaultCost = Inr h) \<and>
      (\<exists>f. rand_Read e = RandFill f) \<and> db_fault e = None \<longrightarrow>
        fst (Signup e s p) = Inl \<lparr>Code = AlreadyExists, Message = ''email already registered''\<rparr>)"
proof -
  have fails: "\<exists>err. fst (Signup e s p) = Inl err"
  proof (cases "CHR ''@'' \<in> set (email p) \<and> 8 \<le> length (password p)")
    case False
    then have "CHR ''@'' \<notin> set (email p) \<or> length (password p) < 8" by auto
    from Signup_invalid [OF this, where e = e and s = s] show ?thesis by auto
  next
    case True
    then have v: "CHR ''@'' \<in> set (email p)" "8 \<le> length (password p)" by simp_all
    have "fst (exec_insert e s (email p) h k) \<noteq> Inr 1" for h k
      using assms by (rule exec_insert_not_inserted)
    moreover have "fst (exec_insert e s (email p) h k) = Inr n \<Longrightarrow> n = 0 \<or> n = 1" for h k n
      by (auto simp: exec_insert_def Let_def split: option.splits if_splits)
    ultimately have z: "fst (exec_insert e s (email p) h k) = Inr n \<Longrightarrow> n = 0" for h k n
      by blast
    show ?thesis
      by (auto simp: Signup_valid [OF v] split: sum.splits dest: z)
  qed
  then obtain err where "fst (Signup e s p) = Inl err" ..
  then have frame: "rows (snd (Signup e s p)) = rows s" by (rule Signup_failure_rows)
  have exists: "fst (Signup e s p) =
      Inl \<lparr>Code = AlreadyExists, Message = ''email already registered''\<rparr>"
    if v: "CHR ''@'' \<in> set (email p)" "8 \<le> length (password p)"
      and h: "bcrypt_GenerateFromPassword e (password p) bcrypt_DefaultCost = Inr h"
      and f: "rand_Read e = RandFill f" and d: "db_fault e = None" for h f
  proof -
    from f have k: "generateAPIKey e = Inr (''esk_'' @ hex_EncodeToString (filled f 16))"
      by (simp add: generateAPIKey_def)
    from exec_insert_conflict [OF assms d]
    show ?thesis by (simp add: Signup_valid [OF v] h k)
  qed
  from fails frame exists show ?thesis by blast
qed

theorem Signup_existing_email_witness:
  "(\<exists>u\<in>set (rows alice_store). Email u = ''a@x.com'') \<and>
   fst (Signup (example_env fill_zero) alice_store \<lparr>email = ''a@x.com'', password = ''other12345''\<rparr>) =
     Inl \<lparr>Code = AlreadyExists, Message = ''email already registered''\<rparr> \<and>
   rows (snd (Signup (example_env fill_zero) alice_store
     \<lparr>email = ''a@x.com'', password = ''other12345''\<rparr>)) = rows alice_store"
proof -
  have a: "\<exists>u\<in>set (rows alice_store). Email u = email \<lparr>email = ''a@x.com'', password = ''other12345''\<rparr>"
    by (simp add: alice_store_def)
  note r = Signup_existing_email [OF a, where e = "example_env fill_zero"]
  have pre: "CHR ''@'' \<in> set (email \<lparr>email = ''a@x.com'', password = ''other12345''\<rparr>) \<and>
      8 \<le> length (password \<lparr>email = ''a@x.com'', password = ''other12345''\<rparr>) \<and>
      (\<exists>h. bcrypt_GenerateFromPassword (example_env fill_zero)
         (password \<lparr>email = ''a@x.com'', password = ''other12345''\<rparr>) bcrypt_DefaultCost = Inr h) \<and>
      (\<exists>f. rand_Read (example_env fill_zero) = RandFill f) \<and>
      db_fault (example_env fill_zero) = None"
    by (simp add: example_env_def stub_GenerateFromPassword_def)
  from r pre a show ?thesis by simp
qed

text \<open>
  Claim C9. The store fails the insert with a driver error; \<open>Signup\<close> returns
  \<open>Internal\<close> with the driver's text appended to the message, so two different driver
  errors give two different messages.
\<close>

theorem Signup_insert_error_message:
  "fst (Signup (faulty_env fill_zero ''connection refused'') empty_store
         \<lparr>email = ''a@x.com'', password = ''longpass1''\<rparr>) =
     Inl \<lparr>Code = Internal, Message = ''failed to create user: connection refused''\<rparr> \<and>
   fst (Signup (faulty_env fill_zero ''deadlock detected'') empty_store
         \<lparr>email = ''a@x.com'', password = ''longpass1''\<rparr>) =
     Inl \<lparr>Code = Internal, Message = ''failed to create user: deadlock detected''\<rparr>"
proof -
  have v: "CHR ''@'' \<in> set (email \<lparr>email = ''a@x.com'', password = ''longpass1''\<rparr>)"
    "8 \<le> length (password \<lparr>email = ''a@x.com'', password = ''longpass1''\<rparr>)"
    by simp_all
  show ?thesis
    by (simp add: Signup_valid [OF v] faulty_env_def example_env_def
        stub_GenerateFromPassword_def generateAPIKey_def exec_insert_fault)
qed

section \<open>RegenerateKey\<close>

lemma filter_no_email:
  "(\<forall>u\<in>set xs. Email u \<noteq> em) \<Longrightarrow> filter (\<lambda>u. Email u = em) xs = []"
  by (induction xs) simp_all

lemma exec_update_key_none:
  assumes "\<forall>u\<in>set (rows s). Email u \<noteq> em" and "db_fault e = None"
  shows "exec_update_key e s k em = (Inr 0, s\<lparr>calls := calls s @ [UpdateKey k em]\<rparr>)"
  using assms by (simp add: exec_update_key_def Let_def filter_no_email)

lemma exec_update_key_fault:
  "db_fault e = Some err \<Longrightarrow>
     exec_update_key e s k em = (Inl err, s\<lparr>calls := calls s @ [UpdateKey k em]\<rparr>)"
  by (simp add: exec_update_key_def Let_def)

text \<open>What a successful update says about the table before it and after it.\<close>

lemma exec_update_key_ok:
  assumes "exec_update_key e s k em = (Inr n, s')" and "u \<in> set (rows s)" and "Email u = em"
  shows "db_fault e = None \<and>
         (\<forall>v\<in>set (rows s). Email v \<noteq> em \<longrightarrow> APIKey v \<noteq> k) \<and>
         rows s' = map (\<lambda>v. if Email v = em then v\<lparr>APIKey := k\<rparr> else v) (rows s)"
proof -
  from assms(2,3) have "u \<in> set (filter (\<lambda>v. Email v = em) (rows s))" by simp
  then have "0 < length (filter (\<lambda>v. Email v = em) (rows s))"
    by (rule length_pos_if_in_set)
  with assms(1) show ?thesis
    by (auto simp: exec_update_key_def Let_def list_ex_iff split: option.splits if_splits)
qed

lemma RegenerateKey_eq:
  "RegenerateKey e s (Some uid) =
     (case generateAPIKey e of
        Inl err \<Rightarrow> (Inl \<lparr>Code = Internal, Message = ''failed to generate new key''\<rparr>, s)
      | Inr newKey \<Rightarrow>
          (case fst (exec_update_key e s newKey uid) of
             Inl err \<Rightarrow> Inl \<lparr>Code = Internal, Message = ''failed to update key''\<rparr>
           | Inr n \<Rightarrow> Inr newKey,
           snd (exec_update_key e s newKey uid)))"
  by (simp add: RegenerateKey_def split: sum.splits prod.splits)

lemma RegenerateKey_unauthenticated:
  "RegenerateKey e s None =
     (Inl \<lparr>Code = Unauthenticated, Message = ''user not authenticated''\<rparr>, s)"
  by (simp add: RegenerateKey_def)

text \<open>
  Claim C1 as stated fails: no row has \<open>ghost@x.com\<close>, the update affects zero rows,
  and \<open>RegenerateKey\<close> returns the new key.
\<close>

theorem RegenerateKey_zero_rows_counterexample:
  "rows empty_store = [] \<and>
   fst (exec_update_key (example_env fill_zero) empty_store
          ''esk_00000000000000000000000000000000'' ''ghost@x.com'') = Inr 0 \<and>
   fst (RegenerateKey (example_env fill_zero) empty_store (Some ''ghost@x.com'')) =
     Inr ''esk_00000000000000000000000000000000''"
  by code_simp

text \<open>
  Claim C1, amended. When no row has the identity's email, the update affects zero rows
  and \<open>RegenerateKey\<close> does not fail for it: with key generation and the driver
  working it returns the generated key, and the rows are as they were. Its
  \<open>Internal\<close> failures come from key generation or from a driver error only.
\<close>

theorem RegenerateKey_no_account:
  assumes "\<forall>u\<in>set (rows s). Email u \<noteq> uid"
  shows "rows (snd (RegenerateKey e s (Some uid))) = rows s \<and>
     (\<forall>k. generateAPIKey e = Inr k \<and> db_fault e = None \<longrightarrow>
        fst (exec_update_key e s k uid) = Inr 0 \<and>
        RegenerateKey e s (Some uid) = (Inr k, s\<lparr>calls := calls s @ [UpdateKey k uid]\<rparr>)) \<and>
     (\<forall>m. fst (RegenerateKey e s (Some uid)) = Inl \<lparr>Code = Internal, Message = m\<rparr> \<longrightarrow>
        (\<exists>err. generateAPIKey e = Inl err) \<or> db_fault e \<noteq> None)"
proof (intro conjI allI impI)
  show "rows (snd (RegenerateKey e s (Some uid))) = rows s"
  proof (cases "db_fault e")
    case None
    with assms show ?thesis
      by (simp add: RegenerateKey_eq exec_update_key_none split: sum.splits)
  next
    case (Some err)
    then show ?thesis
      by (simp add: RegenerateKey_eq exec_update_key_fault split: sum.splits)
  qed
next
  fix k
  assume h: "generateAPIKey e = Inr k \<and> db_fault e = None"
  with assms show "fst (exec_update_key e s k uid) = Inr 0"
    by (simp add: exec_update_key_none)
  from h assms
  show "RegenerateKey e s (Some uid) = (Inr k, s\<lparr>calls := calls s @ [UpdateKey k uid]\<rparr>)"
    by (simp add: RegenerateKey_eq exec_update_key_none)
next
  fix m
  assume f: "fst (RegenerateKey e s (Some uid)) = Inl \<lparr>Code = Internal, Message = m\<rparr>"
  show "(\<exists>err. generateAPIKey e = Inl err) \<or> db_fault e \<noteq> None"
  proof (rule ccontr)
    assume "\<not> ((\<exists>err. generateAPIKey e = Inl err) \<or> db_fault e \<noteq> None)"
    then obtain k where "generateAPIKey e = Inr k" and "db_fault e = None"
      by (cases "generateAPIKey e") auto
    with assms f show False
      by (simp add: RegenerateKey_eq exec_update_key_none)
  qed
qed

theorem RegenerateKey_no_account_witness:
  "map Email (rows alice_store) = [''a@x.com''] \<and>
   generateAPIKey (example_env fill_zero) = Inr ''esk_00000000000000000000000000000000'' \<and>
   RegenerateKey (example_env fill_zero) alice_store (Some ''ghost@x.com'') =
     (Inr ''esk_00000000000000000000000000000000'',
      alice_store\<lparr>calls := calls alice_store @
        [UpdateKey ''esk_00000000000000000000000000000000'' ''ghost@x.com'']\<rparr>)"
proof -
  have a: "\<forall>u\<in>set (rows alice_store). Email u \<noteq> ''ghost@x.com''"
    by (simp add: alice_store_def)
  have g: "generateAPIKey (example_env fill_zero) = Inr ''esk_00000000000000000000000000000000''"
    by code_simp
  have d: "db_fault (example_env fill_zero) = None" by (simp add: example_env_def)
  note r = RegenerateKey_no_account [OF a, where e = "example_env fill_zero",
      THEN conjunct2, THEN conjunct1, rule_format, OF conjI, OF g d, THEN conjunct2]
  have n: "map Email (rows alice_store) = [''a@x.com'']" by (simp add: alice_store_def)
  from n g r show ?thesis by (intro conjI)
qed

text \<open>
  Claim C2 as stated fails: the random source hands out the 16 bytes of the key the
  account already has, the update succeeds, and the previous key still verifies.
\<close>

theorem RegenerateKey_same_key_counterexample:
  "fst (AuthHandler (example_env fill_count) alice_store alice_key) = Inr ''a@x.com'' \<and>
   fst (RegenerateKey (example_env fill_count) alice_store (Some ''a@x.com'')) = Inr alice_key \<and>
   fst (AuthHandler (example_env fill_count)
          (snd (RegenerateKey (example_env fill_count) alice_store (Some ''a@x.com'')))
          alice_key) = Inr ''a@x.com''"
  by code_simp

lemma generateAPIKey_wellformed:
  assumes "generateAPIKey e = Inr k"
  shows "prefix ''esk_'' k \<and> 8 \<le> length k"
proof -
  from generateAPIKey_Inr [OF assms] obtain f
    where k: "k = ''esk_'' @ hex_EncodeToString (filled f 16)" by blast
  have "length k = 36" by (simp add: k hex_EncodeToString_length filled_length)
  moreover have "prefix ''esk_'' k" by (simp add: k)
  ultimately show ?thesis by simp
qed

text \<open>
  Claim C2, amended. Let the identity have a row, with key \<open>oldKey\<close>, in a table with
  unique keys, and let \<open>RegenerateKey\<close> return \<open>newKey\<close>. If \<open>newKey\<close> differs from
  \<open>oldKey\<close>, then \<open>AuthHandler\<close> on \<open>oldKey\<close> fails with \<open>Unauthenticated\<close>, and
  \<open>AuthHandler\<close> on \<open>newKey\<close> (its lookup reaching the database) returns the identity.
\<close>

theorem RegenerateKey_rotation:
  assumes uniq: "distinct (map APIKey (rows s))"
    and u: "u \<in> set (rows s)" "Email u = uid" "APIKey u = oldKey"
    and rot: "RegenerateKey e s (Some uid) = (Inr newKey, s')"
    and fresh: "newKey \<noteq> oldKey"
    and up: "db_fault e2 = None"
  shows "(\<exists>m. fst (AuthHandler e1 s' oldKey) = Inl \<lparr>Code = Unauthenticated, Message = m\<rparr>) \<and>
         fst (AuthHandler e2 s' newKey) = Inr uid"
proof -
  from rot have g: "generateAPIKey e = Inr newKey"
    by (auto simp: RegenerateKey_eq split: sum.splits)
  with rot obtain n where upd: "exec_update_key e s newKey uid = (Inr n, s')"
    by (auto simp: RegenerateKey_eq prod_eq_iff split: sum.splits)
  from exec_update_key_ok [OF upd u(1,2)]
  have others: "\<forall>v\<in>set (rows s). Email v \<noteq> uid \<longrightarrow> APIKey v \<noteq> newKey"
    and rows': "rows s' = map (\<lambda>v. if Email v = uid then v\<lparr>APIKey := newKey\<rparr> else v) (rows s)"
    by simp_all
  have old_gone: "\<forall>w\<in>set (rows s'). APIKey w \<noteq> oldKey"
  proof
    fix w
    assume "w \<in> set (rows s')"
    then obtain v where v: "v \<in> set (rows s)"
      and w: "w = (if Email v = uid then v\<lparr>APIKey := newKey\<rparr> else v)"
      by (auto simp: rows')
    show "APIKey w \<noteq> oldKey"
    proof (cases "Email v = uid")
      case True
      with w fresh show ?thesis by simp
    next
      case False
      have "APIKey v \<noteq> oldKey"
      proof
        assume "APIKey v = oldKey"
        with u(3) have "APIKey v = APIKey u" by simp
        with uniq v u(1) have "v = u" by (rule distinct_key_unique)
        with False u(2) show False by simp
      qed
      with False w show ?thesis by simp
    qed
  qed
  have 1: "\<exists>m. fst (AuthHandler e1 s' oldKey) = Inl \<lparr>Code = Unauthenticated, Message = m\<rparr>"
  proof (cases "\<not> prefix ''esk_'' oldKey \<or> length oldKey < 8")
    case True
    then show ?thesis by (simp add: AuthHandler_malformed)
  next
    case False
    then have wf: "prefix ''esk_'' oldKey" "8 \<le> length oldKey" by auto
    from old_gone have "find (\<lambda>w. APIKey w = oldKey) (rows s') = None" by (rule find_no_key)
    then show ?thesis
      by (simp add: AuthHandler_wellformed [OF wf] split: option.splits)
  qed
  have "u\<lparr>APIKey := newKey\<rparr> \<in> set (rows s')"
    using u(1,2) by (force simp: rows')
  then have "\<exists>w\<in>set (rows s'). APIKey w = newKey" by (rule bexI [rotated]) simp
  then obtain w where f: "find (\<lambda>w. APIKey w = newKey) (rows s') = Some w"
    by (cases "find (\<lambda>w. APIKey w = newKey) (rows s')") (auto simp: find_None_iff)
  from find_Some_mem [OF f] have wm: "w \<in> set (rows s')" and wk: "APIKey w = newKey"
    by simp_all
  from wm obtain v where v: "v \<in> set (rows s)"
    and w: "w = (if Email v = uid then v\<lparr>APIKey := newKey\<rparr> else v)"
    by (auto simp: rows')
  have "Email w = uid"
  proof (cases "Email v = uid")
    case True
    with w show ?thesis by simp
  next
    case False
    with others v have "APIKey v \<noteq> newKey" by simp
    with False w wk show ?thesis by simp
  qed
  with f up have 2: "fst (AuthHandler e2 s' newKey) = Inr uid"
    using generateAPIKey_wellformed [OF g]
    by (simp add: AuthHandler_wellformed)
  from 1 2 show ?thesis ..
qed

theorem RegenerateKey_rotation_witness:
  "fst (AuthHandler (example_env fill_zero) alice_store alice_key) = Inr ''a@x.com'' \<and>
   fst (RegenerateKey (example_env fill_zero) alice_store (Some ''a@x.com'')) =
     Inr ''esk_00000000000000000000000000000000'' \<and>
   (\<exists>m. fst (AuthHandler (example_env fill_zero)
            (snd (RegenerateKey (example_env fill_zero) alice_store (Some ''a@x.com'')))
            alice_key) = Inl \<lparr>Code = Unauthenticated, Message = m\<rparr>) \<and>
   fst (AuthHandler (example_env fill_zero)
          (snd (RegenerateKey (example_env fill_zero) alice_store (Some ''a@x.com'')))
          ''esk_00000000000000000000000000000000'') = Inr ''a@x.com''"
proof -
  have before: "fst (AuthHandler (example_env fill_zero) alice_store alice_key) = Inr ''a@x.com''"
    by code_simp
  have res: "fst (RegenerateKey (example_env fill_zero) alice_store (Some ''a@x.com'')) =
      Inr ''esk_00000000000000000000000000000000''"
    by code_simp
  then have rot: "RegenerateKey (example_env fill_zero) alice_store (Some ''a@x.com'') =
      (Inr ''esk_00000000000000000000000000000000'',
       snd (RegenerateKey (example_env fill_zero) alice_store (Some ''a@x.com'')))"
    by (simp add: prod_eq_iff)
  have uniq: "distinct (map APIKey (rows alice_store))" by (simp add: alice_store_def)
  have u: "\<lparr>ID = 1, Email = ''a@x.com'', Password = ''$2a$longpass1'', APIKey = alice_key\<rparr>
      \<in> set (rows alice_store)"
    "Email \<lparr>ID = 1, Email = ''a@x.com'', Password = ''$2a$longpass1'', APIKey = alice_key\<rparr>
      = ''a@x.com''"
    "APIKey \<lparr>ID = 1, Email = ''a@x.com'', Password = ''$2a$longpass1'', APIKey = alice_key\<rparr>
      = alice_key"
    by (simp_all add: alice_store_def)
  have fresh: "''esk_00000000000000000000000000000000'' \<noteq> alice_key"
    by (simp add: alice_key_def)
  have up: "db_fault (example_env fill_zero) = None" by (simp add: example_env_def)
  note r = RegenerateKey_rotation [OF uniq u rot fresh up,
      where ?e1.0 = "example_env fill_zero"]
  from before res r [THEN conjunct1] r [THEN conjunct2] show ?thesis by (intro conjI)
qed

section \<open>The schema's constraints hold in every reachable table\<close>

lemma wf_store_empty: "wf_store empty_store"
  by (simp add: wf_store_def empty_store_def)

lemma wf_store_calls: "wf_store (s\<lparr>calls := c\<rparr>) = wf_store s"
  by (simp add: wf_store_def)

lemma wf_store_exec_insert:
  assumes "wf_store s"
  shows "wf_store (snd (exec_insert e s em pw k))"
  using assms
  by (auto simp: wf_store_def exec_insert_def Let_def list_ex_iff split: option.splits)

lemma wf_store_Signup:
  assumes "wf_store s"
  shows "wf_store (snd (Signup e s p))"
proof (cases "CHR ''@'' \<in> set (email p) \<and> 8 \<le> length (password p)")
  case False
  then have "CHR ''@'' \<notin> set (email p) \<or> length (password p) < 8" by auto
  from Signup_invalid [OF this, where e = e and s = s] assms show ?thesis by simp
next
  case True
  then have v: "CHR ''@'' \<in> set (email p)" "8 \<le> length (password p)" by simp_all
  from assms show ?thesis
    by (simp add: Signup_valid [OF v] wf_store_exec_insert split: sum.splits)
qed

lemma update_key_fields:
  "map Email (map (\<lambda>v. if Email v = em then v\<lparr>APIKey := k\<rparr> else v) xs) = map Email xs"
  "map ID (map (\<lambda>v. if Email v = em then v\<lparr>APIKey := k\<rparr> else v) xs) = map ID xs"
  "map Password (map (\<lambda>v. if Email v = em then v\<lparr>APIKey := k\<rparr> else v) xs) = map Password xs"
  by (induction xs) simp_all

lemma update_key_distinct:
  assumes "distinct (map APIKey xs)"
    and "length (filter (\<lambda>u. Email u = em) xs) \<le> 1"
    and "\<forall>v\<in>set xs. Email v \<noteq> em \<longrightarrow> APIKey v \<noteq> k"
  shows "distinct (map APIKey (map (\<lambda>v. if Email v = em then v\<lparr>APIKey := k\<rparr> else v) xs))"
  using assms
proof (induction xs)
  case Nil
  then show ?case by simp
next
  case (Cons x xs)
  show ?case
  proof (cases "Email x = em")
    case True
    with Cons.prems(2) have "filter (\<lambda>u. Email u = em) xs = []" by simp
    then have none: "\<forall>v\<in>set xs. Email v \<noteq> em" by (simp add: filter_empty_conv)
    then have same: "map (\<lambda>v. if Email v = em then v\<lparr>APIKey := k\<rparr> else v) xs = xs"
      by (induction xs) simp_all
    from none Cons.prems(3) have "k \<notin> APIKey ` set xs" by auto
    with True same Cons.prems(1) show ?thesis by simp
  next
    case False
    with Cons.prems have ih: "distinct (map APIKey
        (map (\<lambda>v. if Email v = em then v\<lparr>APIKey := k\<rparr> else v) xs))"
      by (intro Cons.IH) simp_all
    from False Cons.prems(3) have xk: "APIKey x \<noteq> k" by simp
    have "APIKey x \<noteq> APIKey (if Email v = em then v\<lparr>APIKey := k\<rparr> else v)"
      if "v \<in> set xs" for v
      using that xk Cons.prems(1) by auto
    then have "APIKey x \<notin> set (map APIKey
        (map (\<lambda>v. if Email v = em then v\<lparr>APIKey := k\<rparr> else v) xs))"
      by auto
    with False ih show ?thesis by simp
  qed
qed

lemma wf_store_exec_update_key:
  assumes "wf_store s"
  shows "wf_store (snd (exec_update_key e s k em))"
proof (cases "db_fault e")
  case (Some err)
  with assms show ?thesis by (simp add: exec_update_key_fault wf_store_calls)
next
  case None
  show ?thesis
  proof (cases "\<forall>u\<in>set (rows s). Email u \<noteq> em")
    case True
    with None assms show ?thesis by (simp add: exec_update_key_none wf_store_calls)
  next
    case False
    then have pos: "length (filter (\<lambda>u. Email u = em) (rows s)) \<noteq> 0"
      by (simp add: filter_empty_conv)
    show ?thesis
    proof (cases "1 < length (filter (\<lambda>u. Email u = em) (rows s)) \<or>
        list_ex (\<lambda>u. Email u \<noteq> em \<and> APIKey u = k) (rows s)")
      case True
      have "snd (exec_update_key e s k em) = s\<lparr>calls := calls s @ [UpdateKey k em]\<rparr>"
        unfolding exec_update_key_def Let_def using None pos True by simp
      with assms show ?thesis by (simp add: wf_store_calls)
    next
      case no: False
      then have one: "length (filter (\<lambda>u. Email u = em) (rows s)) \<le> 1"
        and others: "\<forall>v\<in>set (rows s). Email v \<noteq> em \<longrightarrow> APIKey v \<noteq> k"
        by (auto simp: list_ex_iff not_less)
      have r: "rows (snd (exec_update_key e s k em)) =
          map (\<lambda>v. if Email v = em then v\<lparr>APIKey := k\<rparr> else v) (rows s)"
        unfolding exec_update_key_def Let_def using None pos no by simp
      from assms have "distinct (map APIKey (rows s))" by (simp add: wf_store_def)
      from update_key_distinct [OF this one others]
      have "distinct (map APIKey (rows (snd (exec_update_key e s k em))))"
        by (simp only: r)
      moreover have "map Email (rows (snd (exec_update_key e s k em))) = map Email (rows s)"
        by (simp only: r update_key_fields)
      moreover have "map ID (rows (snd (exec_update_key e s k em))) = map ID (rows s)"
        by (simp only: r update_key_fields)
      ultimately show ?thesis using assms by (simp add: wf_store_def)
    qed
  qed
qed

lemma wf_store_RegenerateKey:
  assumes "wf_store s"
  shows "wf_store (snd (RegenerateKey e s uid))"
proof (cases uid)
  case None
  with assms show ?thesis by (simp add: RegenerateKey_unauthenticated)
next
  case (Some i)
  with assms show ?thesis
    by (simp add: RegenerateKey_eq wf_store_exec_update_key split: sum.splits)
qed

lemma wf_store_Login: "wf_store s \<Longrightarrow> wf_store (snd (Login e s p))"
  by (cases "email p = [] \<or> password p = []")
    (auto simp: Login_invalid Login_eq wf_store_calls)

lemma wf_store_AuthHandler: "wf_store s \<Longrightarrow> wf_store (snd (AuthHandler e s tok))"
  by (cases "\<not> prefix ''esk_'' tok \<or> length tok < 8")
    (auto simp: AuthHandler_malformed AuthHandler_wellformed wf_store_calls)

section \<open>What the package does with the password\<close>

text \<open>
  A successful \<open>Signup\<close> appends one row; its \<open>password\<close> column holds what
  \<open>bcrypt.GenerateFromPassword\<close> returned for the plaintext, and its key is the one
  returned to the caller.
\<close>

lemma Signup_stores_hash:
  assumes "fst (Signup e s p) = Inr k"
  shows "\<exists>h. bcrypt_GenerateFromPassword e (password p) bcrypt_DefaultCost = Inr h \<and>
           rows (snd (Signup e s p)) =
             rows s @ [\<lparr>ID = next_id s, Email = email p, Password = h, APIKey = k\<rparr>]"
proof (cases "CHR ''@'' \<in> set (email p) \<and> 8 \<le> length (password p)")
  case False
  then have "CHR ''@'' \<notin> set (email p) \<or> length (password p) < 8" by auto
  from Signup_invalid [OF this, where e = e and s = s] assms show ?thesis by auto
next
  case True
  then have v: "CHR ''@'' \<in> set (email p)" "8 \<le> length (password p)" by simp_all
  have n: "fst (exec_insert e s (email p) h k') = Inr n \<Longrightarrow> n \<noteq> 0 \<Longrightarrow>
      fst (exec_insert e s (email p) h k') = Inr 1" for h k' n
    by (auto simp: exec_insert_def Let_def split: option.splits if_splits)
  from assms show ?thesis
    by (auto simp: Signup_valid [OF v] exec_insert_rows split: sum.splits if_splits dest: n)
qed

text \<open>
  With the database answering, \<open>Login\<close> for a stored email succeeds exactly when
  \<open>bcrypt.CompareHashAndPassword\<close> accepts the presented password for the stored hash.
\<close>

lemma Login_succeeds_iff:
  assumes "email p \<noteq> []" and "password p \<noteq> []" and "db_fault e = None"
    and "distinct (map Email (rows s))" and "u \<in> set (rows s)" and "Email u = email p"
  shows "(\<exists>k. fst (Login e s p) = Inr k) \<longleftrightarrow>
           bcrypt_CompareHashAndPassword e (Password u) (password p)"
proof -
  from assms(4,5) have "find (\<lambda>v. Email v = Email u) (rows s) = Some u"
    by (rule find_distinct_key)
  with assms(6) have "find (\<lambda>v. Email v = email p) (rows s) = Some u" by simp
  with assms(1,2,3) show ?thesis by (simp add: Login_eq)
qed

section \<open>The example table is a reachable one\<close>

lemma alice_store_reached:
  "Signup (example_env fill_count) empty_store \<lparr>email = ''a@x.com'', password = ''longpass1''\<rparr> =
     (Inr alice_key,
      alice_store\<lparr>calls := [InsertUser ''a@x.com'' ''$2a$longpass1'' alice_key]\<rparr>)"
  by code_simp

end
